theory Spec2Isabelle
  imports Main "HOL-Library.Sublist"
begin

section \<open>The sequential flow of openlane/flows/sequential.py\<close>

subsection \<open>Steps, states and exceptions\<close>

text \<open>
  The source imports \<^verbatim>\<open>State\<close>, \<open>Step\<close> and \<open>MissingInputError\<close> from
  \<^verbatim>\<open>openlane.steps\<close> and \<open>Flow\<close>, \<open>FlowException\<close> and \<open>FlowError\<close> from
  \<^verbatim>\<open>openlane.flows.flow\<close>; none of these modules is part of the verified file.
  A state is a value of an arbitrary type \<open>'s\<close>.

  What a call \<^verbatim>\<open>step.start()\<close> can do as far as \<open>SequentialFlow.run\<close> distinguishes it:
  return a new state, raise \<open>MissingInputError\<close>, raise
  \<open>subprocess.CalledProcessError\<close>, or raise an exception of another class, for which
  \<open>run\<close> has no handler. Each exception carries the text \<^verbatim>\<open>str(e)\<close>.
\<close>

datatype 's start_result =
    Returned 's
  | MissingInputError string
  | CalledProcessError string
  | OtherException string

text \<open>
  Modelled from the spec: the class \<open>Step\<close> is missing from the verified sources. A step
  definition has a stable string id, a separate display name and a run operation
  \<open>run(currentState) -> newState\<close> that fails with a missing-input condition or a
  tool-invocation condition (spec sections 3 and 6). Instantiating a definition
  (\<^verbatim>\<open>cls()\<close>) yields a step with the same id, name and run operation, so the record stands
  for both the definition and its instance.
\<close>

record 's Step =
  step_id :: string
  step_name :: string
  step_run :: "'s \<Rightarrow> 's start_result"

text \<open>
  Modelled from the spec: \<open>Step.start\<close> is missing from the verified sources, and the source
  calls it with no argument (\<^verbatim>\<open>new_state = step.start()\<close>). According to spec section 4.1,
  step 3e, the step instance runs against the most recent element of the list
  \<open>state_list\<close> that \<open>run\<close> holds when it makes the call.
\<close>

definition start :: "'s Step \<Rightarrow> 's list \<Rightarrow> 's start_result" where
  "start step state_list = step_run step (last state_list)"

text \<open>The exceptions that leave \<open>make\<close> and \<open>run\<close>, each with its message.\<close>

datatype exn =
    TypeError string
  | FlowException string
  | FlowError string
  | Propagated string

subsection \<open>The flow class and \<open>SequentialFlow.make\<close>\<close>

record 's SequentialFlow =
  flow_name :: string
  Steps :: "'s Step list"

text \<open>
  \<^verbatim>\<open>Step.factory.get(name)\<close> is a lookup in the registry of step definitions, which is a
  parameter here. The loop of \<open>make\<close> appends to \<open>step_list\<close> until a lookup gives
  \<open>None\<close>. The class method \<open>make\<close> is \<open>make_flow\<close> here (every record has a
  constant \<open>make\<close> of its own); the class it returns, with its attributes \<open>name\<close> and
  \<open>Steps\<close>, is a record.
\<close>

fun make_loop :: "(string \<rightharpoonup> 's Step) \<Rightarrow> string list \<Rightarrow> 's Step list \<Rightarrow> exn + 's Step list" where
  "make_loop factory [] step_list = Inr step_list"
| "make_loop factory (name # rest) step_list =
     (case factory name of
        None \<Rightarrow> Inl (TypeError (''No step found with id '' @ [CHR 0x27] @ name @ [CHR 0x27]))
      | Some step \<Rightarrow> make_loop factory rest (step_list @ [step]))"

definition make_flow :: "(string \<rightharpoonup> 's Step) \<Rightarrow> string list \<Rightarrow> exn + 's SequentialFlow" where
  "make_flow factory step_ids =
     (case make_loop factory step_ids [] of
        Inl e \<Rightarrow> Inl e
      | Inr step_list \<Rightarrow> Inr \<lparr>flow_name = ''Custom Sequential Flow'', Steps = step_list\<rparr>)"

subsection \<open>\<open>SequentialFlow.run\<close>\<close>

text \<open>
  The calls \<open>run\<close> makes on its collaborators are recorded in order:
  \<^verbatim>\<open>self.set_max_stage_count(n)\<close>, \<^verbatim>\<open>self.start_stage(name)\<close>,
  \<^verbatim>\<open>self.end_stage(no_increment_ordinal=b)\<close> (the call \<^verbatim>\<open>self.end_stage()\<close> is
  \<open>EndStage False\<close>) and \<^verbatim>\<open>step.start()\<close> with what it came back with. The calls to the
  logging functions \<open>log\<close> and \<open>success\<close> are not recorded.
\<close>

datatype 's event =
    SetMaxStageCount nat
  | StartStage string
  | EndStage bool
  | StepStart "'s Step" "'s start_result"

text \<open>The local variables of \<open>run\<close> that change in the loop.\<close>

record 's locals =
  state_list :: "'s list"
  step_list :: "'s Step list"
  executing :: bool

text \<open>
  One iteration of \<^verbatim>\<open>for cls in self.Steps\<close>: the events of the iteration, and either the
  exception that leaves \<open>run\<close> or the local variables at the end of the iteration.
\<close>

definition loop_body ::
  "string option \<Rightarrow> string option \<Rightarrow> 's Step \<Rightarrow> 's locals \<Rightarrow> 's event list \<times> (exn + 's locals)" where
  "loop_body frm to step l =
     (let executing1 = (if frm \<noteq> None \<and> frm = Some (step_id step) then True else executing l) in
      if \<not> executing1 then
        ([StartStage (step_name step), EndStage True], Inr (l\<lparr>executing := executing1\<rparr>))
      else
        (let step_list1 = step_list l @ [step];
             r = start step (state_list l) in
         case r of
           MissingInputError e \<Rightarrow>
             ([StartStage (step_name step), StepStart step r], Inl (FlowException e))
         | CalledProcessError e \<Rightarrow>
             ([StartStage (step_name step), StepStart step r], Inl (FlowError e))
         | OtherException e \<Rightarrow>
             ([StartStage (step_name step), StepStart step r], Inl (Propagated e))
         | Returned new_state \<Rightarrow>
             ([StartStage (step_name step), StepStart step r, EndStage False],
              Inr \<lparr>state_list = state_list l @ [new_state],
                   step_list = step_list1,
                   executing = (if to \<noteq> None \<and> to = Some (step_id step) then False else executing1)\<rparr>)))"

fun for_loop ::
  "string option \<Rightarrow> string option \<Rightarrow> 's Step list \<Rightarrow> 's locals \<Rightarrow> 's event list \<times> (exn + 's locals)" where
  "for_loop frm to [] l = ([], Inr l)"
| "for_loop frm to (cls # rest) l =
     (case loop_body frm to cls l of
        (ev, Inl e) \<Rightarrow> (ev, Inl e)
      | (ev, Inr l') \<Rightarrow> (case for_loop frm to rest l' of (ev', r) \<Rightarrow> (ev @ ev', r)))"

text \<open>
  \<open>run\<close> itself: the events in order, and either the exception raised or the pair
  \<^verbatim>\<open>(state_list, step_list)\<close> returned. The keyword arguments \<^verbatim>\<open>**kwargs\<close> are a list of
  names and values of any type.
\<close>

definition run ::
  "'s SequentialFlow \<Rightarrow> 's \<Rightarrow> string option \<Rightarrow> string option \<Rightarrow> (string \<times> 'k) list
     \<Rightarrow> 's event list \<times> (exn + 's list \<times> 's Step list)" where
  "run self initial_state frm to kwargs =
     (let step_count = length (Steps self) in
      case for_loop frm to (Steps self)
             \<lparr>state_list = [initial_state], step_list = [], executing = (frm = None)\<rparr> of
        (ev, Inl e) \<Rightarrow> (SetMaxStageCount step_count # ev, Inl e)
      | (ev, Inr l) \<Rightarrow> (SetMaxStageCount step_count # ev, Inr (state_list l, step_list l)))"

subsection \<open>The progress tracker\<close>

text \<open>
  Modelled from the spec: the methods \<open>set_max_stage_count\<close>, \<open>start_stage\<close> and
  \<open>end_stage\<close> belong to the base class \<open>Flow\<close>, which is missing from the verified
  sources. According to spec sections 2, 3 and 4.3 the tracker keeps a stage ordinal, a
  maximum stage count and the name of the stage currently open; closing a stage advances
  the ordinal by one unless the caller asks it not to.
\<close>

record progress =
  ordinal :: nat
  max_stage_count :: nat
  current_stage :: "string option"

fun track_event :: "'s event \<Rightarrow> progress \<Rightarrow> progress" where
  "track_event (SetMaxStageCount n) p = p\<lparr>max_stage_count := n\<rparr>"
| "track_event (StartStage name) p = p\<lparr>current_stage := Some name\<rparr>"
| "track_event (EndStage no_increment_ordinal) p =
     p\<lparr>current_stage := None,
       ordinal := (if no_increment_ordinal then ordinal p else ordinal p + 1)\<rparr>"
| "track_event (StepStart step r) p = p"

fun track :: "'s event list \<Rightarrow> progress \<Rightarrow> progress" where
  "track [] p = p"
| "track (e # ev) p = track ev (track_event e p)"

subsection \<open>Reading the recorded calls\<close>

text \<open>The calls of \<^verbatim>\<open>step.start()\<close> among the events, in order, each with its outcome.\<close>

fun calls :: "'s event list \<Rightarrow> ('s Step \<times> 's start_result) list" where
  "calls [] = []"
| "calls (StepStart step r # ev) = (step, r) # calls ev"
| "calls (SetMaxStageCount n # ev) = calls ev"
| "calls (StartStage name # ev) = calls ev"
| "calls (EndStage b # ev) = calls ev"

text \<open>The states that a sequence of calls returned.\<close>

fun returned :: "('s Step \<times> 's start_result) list \<Rightarrow> 's list" where
  "returned [] = []"
| "returned ((step, Returned s) # cs) = s # returned cs"
| "returned ((step, MissingInputError e) # cs) = returned cs"
| "returned ((step, CalledProcessError e) # cs) = returned cs"
| "returned ((step, OtherException e) # cs) = returned cs"

text \<open>
  A sequence of calls is threaded from a state when every outcome is the step's run
  operation applied to the state current at that call: the state the call before it
  returned, or the starting state.
\<close>

fun threaded :: "'s \<Rightarrow> ('s Step \<times> 's start_result) list \<Rightarrow> bool" where
  "threaded s [] = True"
| "threaded s ((step, r) # cs) =
     (r = step_run step s \<and> threaded (case r of Returned s' \<Rightarrow> s' | _ \<Rightarrow> s) cs)"

text \<open>The calls on the progress tracker among the events.\<close>

fun tracker_calls :: "'s event list \<Rightarrow> 's event list" where
  "tracker_calls [] = []"
| "tracker_calls (StepStart step r # ev) = tracker_calls ev"
| "tracker_calls (SetMaxStageCount n # ev) = SetMaxStageCount n # tracker_calls ev"
| "tracker_calls (StartStage name # ev) = StartStage name # tracker_calls ev"
| "tracker_calls (EndStage b # ev) = EndStage b # tracker_calls ev"

text \<open>
  The tracker calls of a run of completed iterations: each step opens a stage under its
  display name and closes it, with \<open>no_increment_ordinal\<close> set when the step was skipped.
\<close>

fun stages :: "('s Step \<times> bool) list \<Rightarrow> 's event list" where
  "stages [] = []"
| "stages ((step, skipped) # rest) =
     StartStage (step_name step) # EndStage skipped # stages rest"

text \<open>A step that returns a state whatever state it is started on.\<close>

definition always_succeeds :: "'s Step \<Rightarrow> bool" where
  "always_succeeds step = (\<forall>s. \<exists>s'. step_run step s = Returned s')"

subsection \<open>Example steps and flows\<close>

text \<open>
  States are lists of artifact names. \<open>tool i\<close> adds the artifact \<open>i\<close>; \<open>needs a i\<close>
  adds \<open>i\<close> when the artifact \<open>a\<close> is present and reports a missing input otherwise;
  \<open>crash i\<close> is a step whose external process fails.
\<close>

definition tool :: "string \<Rightarrow> string list Step" where
  "tool i = \<lparr>step_id = i, step_name = i, step_run = (\<lambda>s. Returned (s @ [i]))\<rparr>"

definition needs :: "string \<Rightarrow> string \<Rightarrow> string list Step" where
  "needs a i = \<lparr>step_id = i, step_name = i,
     step_run = (\<lambda>s. if a \<in> set s then Returned (s @ [i]) else MissingInputError a)\<rparr>"

definition crash :: "string \<Rightarrow> string list Step" where
  "crash i = \<lparr>step_id = i, step_name = i, step_run = (\<lambda>s. CalledProcessError i)\<rparr>"

definition flow_of :: "string list Step list \<Rightarrow> string list SequentialFlow" where
  "flow_of steps = \<lparr>flow_name = ''Example'', Steps = steps\<rparr>"

definition three_tools :: "string list SequentialFlow" where
  "three_tools = flow_of [tool ''syn'', tool ''place'', tool ''route'']"

definition no_kwargs :: "(string \<times> unit) list" where
  "no_kwargs = []"

section \<open>Properties\<close>

subsection \<open>One iteration\<close>

lemma loop_body_skip:
  "\<not> executing l \<Longrightarrow> frm \<noteq> Some (step_id step) \<Longrightarrow>
   loop_body frm to step l = ([StartStage (step_name step), EndStage True], Inr l)"
  by (simp add: loop_body_def)

lemma loop_body_Returned:
  "executing l \<or> frm = Some (step_id step) \<Longrightarrow>
   step_run step (last (state_list l)) = Returned s' \<Longrightarrow>
   loop_body frm to step l =
     ([StartStage (step_name step), StepStart step (Returned s'), EndStage False],
      Inr \<lparr>state_list = state_list l @ [s'], step_list = step_list l @ [step],
           executing = (to \<noteq> Some (step_id step))\<rparr>)"
  by (auto simp add: loop_body_def start_def)

lemma loop_body_InrE:
  assumes "loop_body frm to step l = (ev, Inr l')"
  obtains (skipped) "\<not> executing l" "frm \<noteq> Some (step_id step)" "l' = l"
      "ev = [StartStage (step_name step), EndStage True]"
  | (executed) s' where "executing l \<or> frm = Some (step_id step)"
      "step_run step (last (state_list l)) = Returned s'"
      "ev = [StartStage (step_name step), StepStart step (Returned s'), EndStage False]"
      "l' = \<lparr>state_list = state_list l @ [s'], step_list = step_list l @ [step],
             executing = (to \<noteq> Some (step_id step))\<rparr>"
  using assms
  by (auto simp add: loop_body_def start_def Let_def split: if_splits start_result.splits)

lemma loop_body_raised:
  assumes "loop_body frm to step l = (ev, Inl e)"
  shows "(executing l \<or> frm = Some (step_id step)) \<and>
         ev = [StartStage (step_name step), StepStart step (step_run step (last (state_list l)))] \<and>
         ((\<exists>m. step_run step (last (state_list l)) = MissingInputError m \<and> e = FlowException m) \<or>
          (\<exists>m. step_run step (last (state_list l)) = CalledProcessError m \<and> e = FlowError m) \<or>
          (\<exists>m. step_run step (last (state_list l)) = OtherException m \<and> e = Propagated m))"
  using assms
  by (auto simp add: loop_body_def start_def Let_def split: if_splits start_result.splits)

subsection \<open>Segments of the loop\<close>

lemma calls_append: "calls (a @ b) = calls a @ calls b"
  by (induction a rule: calls.induct) simp_all

lemma for_loop_Cons_Inr:
  assumes "for_loop frm to (x # xs) l = (ev, Inr l')"
  obtains ev1 l1 ev2 where "loop_body frm to x l = (ev1, Inr l1)"
    "for_loop frm to xs l1 = (ev2, Inr l')" "ev = ev1 @ ev2"
  using assms by (auto split: prod.splits sum.splits)


lemma for_loop_append:
  "for_loop frm to (xs @ ys) l =
     (case for_loop frm to xs l of
        (ev, Inl e) \<Rightarrow> (ev, Inl e)
      | (ev, Inr l') \<Rightarrow> (case for_loop frm to ys l' of (ev', r) \<Rightarrow> (ev @ ev', r)))"
  by (induction xs arbitrary: l) (auto split: prod.splits sum.splits)

lemma for_loop_skipped:
  "\<not> executing l \<Longrightarrow> \<forall>x\<in>set xs. frm \<noteq> Some (step_id x) \<Longrightarrow>
   for_loop frm to xs l =
     (concat (map (\<lambda>x. [StartStage (step_name x), EndStage True]) xs), Inr l)"
  by (induction xs) (simp_all add: loop_body_skip)

lemma for_loop_open:
  assumes "executing l \<or> (xs \<noteq> [] \<and> frm = Some (step_id (hd xs)))"
    and "\<forall>x\<in>set xs. to \<noteq> Some (step_id x)"
    and "\<forall>x\<in>set xs. always_succeeds x"
  shows "\<exists>ev l'. for_loop frm to xs l = (ev, Inr l') \<and> step_list l' = step_list l @ xs \<and>
           length (state_list l') = length (state_list l) + length xs \<and>
           take (length (state_list l)) (state_list l') = state_list l \<and>
           executing l'"
  using assms
proof (induction xs arbitrary: l)
  case Nil
  then show ?case by simp
next
  case (Cons x xs)
  from Cons.prems(3) obtain s' where s: "step_run x (last (state_list l)) = Returned s'"
    unfolding always_succeeds_def by (meson list.set_intros(1))
  let ?l1 = "\<lparr>state_list = state_list l @ [s'], step_list = step_list l @ [x],
           executing = (to \<noteq> Some (step_id x))\<rparr>"
  from Cons.prems(1) have en: "executing l \<or> frm = Some (step_id x)" by auto
  have b: "loop_body frm to x l =
     ([StartStage (step_name x), StepStart x (Returned s'), EndStage False], Inr ?l1)"
    by (rule loop_body_Returned[OF en s])
  from Cons.prems(2) have ex1: "executing ?l1" by simp
  from Cons.IH[of ?l1] ex1 Cons.prems(2,3)
  obtain ev l' where r: "for_loop frm to xs ?l1 = (ev, Inr l')"
     "step_list l' = step_list ?l1 @ xs"
     "length (state_list l') = length (state_list ?l1) + length xs"
     "take (length (state_list ?l1)) (state_list l') = state_list ?l1"
     "executing l'"
    by auto
  from r(4) have "take (length (state_list l)) (take (length (state_list ?l1)) (state_list l')) = state_list l"
    by simp
  then have t: "take (length (state_list l)) (state_list l') = state_list l"
    by (simp add: min_def)
  show ?case using b r(1,2,3,5) t
    by auto
qed

lemma for_loop_window:
  assumes "xs \<noteq> []" "executing l \<or> frm = Some (step_id (hd xs))"
    and "to = Some (step_id (last xs))"
    and "\<forall>x\<in>set (butlast xs). step_id x \<noteq> step_id (last xs)"
    and "\<forall>x\<in>set xs. always_succeeds x"
  shows "\<exists>ev l'. for_loop frm to xs l = (ev, Inr l') \<and> step_list l' = step_list l @ xs \<and>
           length (state_list l') = length (state_list l) + length xs \<and>
           take (length (state_list l)) (state_list l') = state_list l \<and>
           \<not> executing l'"
proof -
  let ?ys = "butlast xs" and ?z = "last xs"
  have xs: "xs = ?ys @ [?z]" using assms(1) by simp
  have "executing l \<or> (?ys \<noteq> [] \<and> frm = Some (step_id (hd ?ys))) \<or> (?ys = [] \<and> frm = Some (step_id ?z))"
    using assms(1,2) by (cases xs) (auto)
  then consider (a) "executing l \<or> (?ys \<noteq> [] \<and> frm = Some (step_id (hd ?ys)))"
    | (b) "?ys = []" "frm = Some (step_id ?z)" by blast
  then obtain ev1 l1 where
    p: "for_loop frm to ?ys l = (ev1, Inr l1)" "step_list l1 = step_list l @ ?ys"
       "length (state_list l1) = length (state_list l) + length ?ys"
       "take (length (state_list l)) (state_list l1) = state_list l"
       "executing l1 \<or> frm = Some (step_id ?z)"
  proof cases
    case a
    have "\<forall>x\<in>set ?ys. to \<noteq> Some (step_id x)" using assms(3,4) by auto
    moreover have "\<forall>x\<in>set ?ys. always_succeeds x" using assms(5) by (meson in_set_butlastD)
    ultimately obtain ev1 l1 where
      "for_loop frm to ?ys l = (ev1, Inr l1)" "step_list l1 = step_list l @ ?ys"
       "length (state_list l1) = length (state_list l) + length ?ys"
       "take (length (state_list l)) (state_list l1) = state_list l"
       "executing l1"
      using for_loop_open[OF a, of to] by blast
    then show ?thesis using that by blast
  next
    case b
    then show ?thesis using that[of "[]" l] by simp
  qed
  from assms(1,5) obtain s' where s: "step_run ?z (last (state_list l1)) = Returned s'"
    unfolding always_succeeds_def by (meson last_in_set)
  note b = loop_body_Returned[OF p(5) s, of to]
  have "for_loop frm to xs l = (case for_loop frm to ?ys l of
        (ev, Inl e) \<Rightarrow> (ev, Inl e)
      | (ev, Inr l') \<Rightarrow> (case for_loop frm to [?z] l' of (ev', r) \<Rightarrow> (ev @ ev', r)))"
    using for_loop_append[of frm to ?ys "[?z]" l] xs by simp
  then have "for_loop frm to xs l = (ev1 @ [StartStage (step_name ?z), StepStart ?z (Returned s'), EndStage False],
      Inr \<lparr>state_list = state_list l1 @ [s'], step_list = step_list l1 @ [?z],
           executing = (to \<noteq> Some (step_id ?z))\<rparr>)"
    using p(1) b by simp
  moreover have "length xs = Suc (length ?ys)" using assms(1) by simp
  ultimately show ?thesis using p(2,3,4) assms(3) xs
    by (auto simp: )
qed

lemma for_loop_Inr_shape:
  "for_loop frm to xs l = (ev, Inr l') \<Longrightarrow>
     \<exists>more ex. state_list l' = state_list l @ more \<and> step_list l' = step_list l @ ex \<and>
       length more = length ex \<and> subseq ex xs \<and> map fst (calls ev) = ex \<and>
       count_list ev (EndStage True) + length ex = length xs"
proof (induction xs arbitrary: l ev)
  case Nil
  then show ?case by auto
next
  case (Cons x xs)
  from Cons.prems obtain ev1 l1 ev2 where
    b: "loop_body frm to x l = (ev1, Inr l1)" and
    r: "for_loop frm to xs l1 = (ev2, Inr l')" and e: "ev = ev1 @ ev2"
    by (rule for_loop_Cons_Inr)
  from Cons.IH[OF r] obtain more ex where
    ih: "state_list l' = state_list l1 @ more" "step_list l' = step_list l1 @ ex"
        "length more = length ex" "subseq ex xs" "map fst (calls ev2) = ex"
        "count_list ev2 (EndStage True) + length ex = length xs" by blast
  from b show ?case
  proof (cases rule: loop_body_InrE)
    case skipped
    with ih e show ?thesis by (auto simp: calls_append)
  next
    case (executed s')
    with ih e have "state_list l' = state_list l @ (s' # more) \<and> step_list l' = step_list l @ (x # ex) \<and>
       length (s' # more) = length (x # ex) \<and> subseq (x # ex) (x # xs) \<and> map fst (calls ev) = x # ex \<and>
       count_list ev (EndStage True) + length (x # ex) = length (x # xs)"
      by (auto simp: calls_append)
    then show ?thesis by (intro exI[of _ "s' # more"] exI[of _ "x # ex"])
  qed
qed

lemma for_loop_unbounded:
  "for_loop frm None xs l = (ev, Inr l') \<Longrightarrow> executing l \<Longrightarrow> step_list l' = step_list l @ xs"
proof (induction xs arbitrary: l ev)
  case Nil
  then show ?case by simp
next
  case (Cons x xs)
  from Cons.prems(1) obtain ev1 l1 ev2 where
    b: "loop_body frm None x l = (ev1, Inr l1)" and
    r: "for_loop frm None xs l1 = (ev2, Inr l')"
    by (rule for_loop_Cons_Inr)
  from b Cons.prems(2)
  have "executing l1" "step_list l1 = step_list l @ [x]"
    by (auto elim: loop_body_InrE)
  with Cons.IH[OF r] show ?case by simp
qed

lemma for_loop_Cons_cases:
  assumes "for_loop frm to (x # xs) l = (ev, r)"
  obtains (raised) e where "loop_body frm to x l = (ev, Inl e)" "r = Inl e"
  | (continued) ev1 l1 ev2 where "loop_body frm to x l = (ev1, Inr l1)"
      "for_loop frm to xs l1 = (ev2, r)" "ev = ev1 @ ev2"
  using assms by (auto split: prod.splits sum.splits)

lemma returned_append: "returned (a @ b) = returned a @ returned b"
  by (induction a rule: returned.induct) simp_all

lemma threaded_nth:
  "threaded s cs \<Longrightarrow> i < length cs \<Longrightarrow>
   snd (cs ! i) = step_run (fst (cs ! i)) (last (s # returned (take i cs)))"
proof (induction cs arbitrary: s i)
  case Nil
  then show ?case by simp
next
  case (Cons c cs)
  obtain step r where c: "c = (step, r)" by (cases c)
  show ?case
  proof (cases i)
    case 0
    then show ?thesis using Cons.prems c by simp
  next
    case (Suc j)
    let ?s1 = "case r of Returned s' \<Rightarrow> s' | _ \<Rightarrow> s"
    have t: "threaded ?s1 cs" and j: "j < length cs" using Cons.prems c Suc by auto
    have "last (s # returned (take i (c # cs))) = last (?s1 # returned (take j cs))"
      using c Suc by (cases r) simp_all
    with Cons.IH[OF t j] Suc show ?thesis by simp
  qed
qed

lemma for_loop_threaded:
  "for_loop frm to xs l = (ev, r) \<Longrightarrow>
   threaded (last (state_list l)) (calls ev) \<and>
   (case r of Inl e \<Rightarrow> True
    | Inr l' \<Rightarrow> state_list l' = state_list l @ returned (calls ev) \<and>
        step_list l' = step_list l @ map fst (calls ev))"
proof (induction xs arbitrary: l ev)
  case Nil
  then show ?case by auto
next
  case (Cons x xs)
  from Cons.prems show ?case
  proof (cases rule: for_loop_Cons_cases)
    case (raised e)
    from loop_body_raised[OF raised(1)]
    have "calls ev = [(x, step_run x (last (state_list l)))]" by simp
    then show ?thesis using raised(2) by simp
  next
    case (continued ev1 l1 ev2)
    note ih = Cons.IH[OF continued(2)]
    from continued(1) show ?thesis
    proof (cases rule: loop_body_InrE)
      case skipped
      then have "calls ev = calls ev2" using continued(3) by (simp add: calls_append)
      then show ?thesis using ih skipped(3) by (cases r) simp_all
    next
      case (executed s')
      then have c: "calls ev = (x, Returned s') # calls ev2"
        using continued(3) by (simp add: calls_append)
      have sl: "state_list l1 = state_list l @ [s']" "step_list l1 = step_list l @ [x]"
        using executed(4) by simp_all
      have "threaded s' (calls ev2)" using ih sl(1) by simp
      then have "threaded (last (state_list l)) (calls ev)"
        using c executed(2) by simp
      moreover have "case r of Inl e \<Rightarrow> True
        | Inr l' \<Rightarrow> state_list l' = state_list l @ returned (calls ev) \<and>
            step_list l' = step_list l @ map fst (calls ev)"
        using ih c sl by (cases r) simp_all
      ultimately show ?thesis by blast
    qed
  qed
qed

subsection \<open>A window of steps that all succeed\<close>

lemma run_window:
  assumes st: "Steps self = A @ B @ C" and ne: "B \<noteq> []"
    and fr: "A = [] \<and> frm = None \<or>
             frm = Some (step_id (hd B)) \<and> (\<forall>a\<in>set A. step_id a \<noteq> step_id (hd B))"
    and tt: "C = [] \<and> (\<forall>b\<in>set B. to \<noteq> Some (step_id b)) \<or>
             to = Some (step_id (last B)) \<and> (\<forall>b\<in>set (butlast B). step_id b \<noteq> step_id (last B))
               \<and> (\<forall>c\<in>set C. frm \<noteq> Some (step_id c))"
    and su: "\<forall>b\<in>set B. always_succeeds b"
  shows "\<exists>ev states. run self S frm to kw = (ev, Inr (states, B)) \<and>
           length states = Suc (length B) \<and> hd states = S"
proof -
  let ?l0 = "\<lparr>state_list = [S], step_list = [], executing = (frm = None)\<rparr>"
  obtain evA where a: "for_loop frm to A ?l0 = (evA, Inr ?l0)"
  proof (cases "A = []")
    case True
    then show ?thesis using that by simp
  next
    case False
    with fr have "\<not> executing ?l0" "\<forall>x\<in>set A. frm \<noteq> Some (step_id x)" by auto
    from for_loop_skipped[OF this] show ?thesis using that by blast
  qed
  have en: "executing ?l0 \<or> frm = Some (step_id (hd B))" using fr by auto
  obtain evB l1 where b: "for_loop frm to B ?l0 = (evB, Inr l1)" "step_list l1 = B"
    "length (state_list l1) = Suc (length B)" "take 1 (state_list l1) = [S]"
    "executing l1 \<and> C = [] \<or> \<not> executing l1 \<and> (\<forall>c\<in>set C. frm \<noteq> Some (step_id c))"
  proof -
    from tt show ?thesis
    proof
      assume h: "C = [] \<and> (\<forall>b\<in>set B. to \<noteq> Some (step_id b))"
      have "executing ?l0 \<or> (B \<noteq> [] \<and> frm = Some (step_id (hd B)))" using en ne by simp
      from for_loop_open[OF this, of to] h su show ?thesis using that by fastforce
    next
      assume h: "to = Some (step_id (last B)) \<and> (\<forall>b\<in>set (butlast B). step_id b \<noteq> step_id (last B))
               \<and> (\<forall>c\<in>set C. frm \<noteq> Some (step_id c))"
      from for_loop_window[OF ne en, of to] h su show ?thesis using that by fastforce
    qed
  qed
  obtain evC where c: "for_loop frm to C l1 = (evC, Inr l1)"
    using b(5) for_loop_skipped[of l1 C frm to] by auto
  have "for_loop frm to (A @ B @ C) ?l0 = (evA @ evB @ evC, Inr l1)"
    using a b(1) c by (simp add: for_loop_append)
  moreover have "hd (state_list l1) = S" using b(3,4) by (cases "state_list l1") auto
  ultimately show ?thesis using st b(2,3) by (simp add: run_def)
qed

lemma run_window_distinct:
  assumes st: "Steps self = A @ B @ C" and ne: "B \<noteq> []"
    and di: "distinct (map step_id (Steps self))"
    and fr: "A = [] \<and> frm = None \<or> frm = Some (step_id (hd B))"
    and tt: "C = [] \<and> to = None \<or> to = Some (step_id (last B))"
    and su: "\<forall>b\<in>set B. always_succeeds b"
  shows "\<exists>ev states. run self S frm to kw = (ev, Inr (states, B)) \<and>
           length states = Suc (length B) \<and> hd states = S"
proof -
  have d: "distinct (map step_id A @ map step_id B @ map step_id C)" using di st by simp
  have hB: "hd B \<in> set B" and lB: "last B \<in> set B" using ne by simp_all
  have B: "B = butlast B @ [last B]" using ne by simp
  have "distinct (map step_id B)" using d by simp
  then have "distinct (map step_id (butlast B) @ [step_id (last B)])"
    using B by (metis list.simps(8,9) map_append)
  then have "step_id (last B) \<notin> step_id ` set (butlast B)" by simp
  then have bl: "\<forall>b\<in>set (butlast B). step_id b \<noteq> step_id (last B)"
    by (metis imageI)
  have ab: "\<forall>a\<in>set A. step_id a \<noteq> step_id (hd B)" using d hB by auto
  have bc: "\<forall>c\<in>set C. step_id (hd B) \<noteq> step_id c" using d hB by auto
  have fr': "A = [] \<and> frm = None \<or>
             frm = Some (step_id (hd B)) \<and> (\<forall>a\<in>set A. step_id a \<noteq> step_id (hd B))"
    using fr ab by blast
  have tt': "C = [] \<and> (\<forall>b\<in>set B. to \<noteq> Some (step_id b)) \<or>
             to = Some (step_id (last B)) \<and> (\<forall>b\<in>set (butlast B). step_id b \<noteq> step_id (last B))
               \<and> (\<forall>c\<in>set C. frm \<noteq> Some (step_id c))"
    using tt fr bl bc by auto
  from run_window[OF st ne fr' tt' su] show ?thesis .
qed

lemma run_normal_calls:
  assumes "run self S frm to kw = (ev, Inr (states, executed))"
  shows "map fst (calls ev) = executed \<and> states = S # returned (calls ev) \<and>
         length states = Suc (length executed) \<and>
         count_list ev (EndStage True) + length executed = length (Steps self)"
proof -
  let ?l0 = "\<lparr>state_list = [S], step_list = [], executing = (frm = None)\<rparr>"
  from assms obtain ev0 l' where
    f: "for_loop frm to (Steps self) ?l0 = (ev0, Inr l')" and
    e: "ev = SetMaxStageCount (length (Steps self)) # ev0" and
    s: "states = state_list l'" "executed = step_list l'"
    by (auto simp: run_def Let_def split: prod.splits sum.splits)
  from for_loop_Inr_shape[OF f] obtain more where
    m: "state_list l' = S # more" "length more = length executed"
       "map fst (calls ev0) = executed"
       "count_list ev0 (EndStage True) + length executed = length (Steps self)"
    using s by auto
  from for_loop_threaded[OF f] have "state_list l' = [S] @ returned (calls ev0)" by simp
  with m e s show ?thesis by simp
qed

subsection \<open>Starting at the k-th step\<close>

text \<open>
  Claim C7. In a pipeline of \<open>N\<close> steps with distinct ids that all succeed, \<open>run\<close>
  with no \<open>to\<close> and \<open>frm\<close> the id of the \<open>k\<close>-th step (counted from 1) returns
  normally, and the executed steps are the \<open>k\<close>-th step and all that follow it:
  \<open>N - k + 1\<close> steps, the first of them the \<open>k\<close>-th step of the pipeline. These are
  the steps on which \<open>start\<close> was called, in this order; the states returned are the
  initial state followed by what these calls returned, \<open>N - k + 2\<close> states; and the
  \<open>k - 1\<close> steps before the \<open>k\<close>-th closed their stage as skipped.
\<close>

theorem run_from_kth:
  assumes "distinct (map step_id (Steps self))" "\<forall>x\<in>set (Steps self). always_succeeds x"
    "1 \<le> k" "k \<le> length (Steps self)"
  shows "\<exists>ev states executed.
           run self S (Some (step_id (Steps self ! (k - 1)))) None kw = (ev, Inr (states, executed)) \<and>
           executed = drop (k - 1) (Steps self) \<and>
           length executed = length (Steps self) - k + 1 \<and>
           hd executed = Steps self ! (k - 1) \<and>
           map fst (calls ev) = executed \<and>
           states = S # returned (calls ev) \<and>
           length states = length (Steps self) - k + 2 \<and>
           count_list ev (EndStage True) = k - 1"
proof -
  let ?A = "take (k - 1) (Steps self)" and ?B = "drop (k - 1) (Steps self)"
  have ne: "?B \<noteq> []" using assms(3,4) by simp
  have hdB: "hd ?B = Steps self ! (k - 1)" using assms(3,4) by (simp add: hd_drop_conv_nth)
  have st: "Steps self = ?A @ ?B @ []" by simp
  have fr: "?A = [] \<and> Some (step_id (Steps self ! (k - 1))) = None \<or>
            Some (step_id (Steps self ! (k - 1))) = Some (step_id (hd ?B))"
    using hdB by simp
  have tt: "[] = [] \<and> None = None \<or> None = Some (step_id (last ?B))" by simp
  have su: "\<forall>b\<in>set ?B. always_succeeds b" using assms(2) by (meson in_set_dropD)
  from run_window_distinct[OF st ne assms(1) fr tt su, of S kw] obtain ev states where
    r: "run self S (Some (step_id (Steps self ! (k - 1)))) None kw = (ev, Inr (states, ?B))"
    by blast
  have len: "length ?B = length (Steps self) - k + 1" using assms(3,4) by simp
  from run_normal_calls[OF r] len have
    c: "map fst (calls ev) = ?B" "states = S # returned (calls ev)"
       "length states = length (Steps self) - k + 2"
       "count_list ev (EndStage True) = k - 1"
    using assms(3,4) by auto
  show ?thesis
    apply (rule exI[of _ ev])
    apply (rule exI[of _ states])
    apply (rule exI[of _ ?B])
    using r len hdB c by simp
qed

theorem run_from_kth_witness:
  "distinct (map step_id (Steps (flow_of [tool ''a'', tool ''b'', tool ''c'']))) \<and>
   list_all always_succeeds (Steps (flow_of [tool ''a'', tool ''b'', tool ''c''])) \<and>
   (\<exists>ev states.
      run (flow_of [tool ''a'', tool ''b'', tool ''c'']) [] (Some ''b'') None no_kwargs =
        (ev, Inr (states, [tool ''b'', tool ''c''])) \<and>
      map fst (calls ev) = [tool ''b'', tool ''c''] \<and>
      states = [] # returned (calls ev) \<and> length states = 3 \<and>
      count_list ev (EndStage True) = 1)"
proof -
  let ?F = "flow_of [tool ''a'', tool ''b'', tool ''c'']"
  have d: "distinct (map step_id (Steps ?F))"
    by (simp add: flow_of_def tool_def)
  have a: "\<forall>x\<in>set (Steps ?F). always_succeeds x"
    by (simp add: flow_of_def tool_def always_succeeds_def)
  have k: "(1::nat) \<le> 2" "2 \<le> length (Steps ?F)"
    by (simp_all add: flow_of_def)
  from run_from_kth [OF d a k, of "[]" no_kwargs] d a show ?thesis
    by (simp add: flow_of_def tool_def list_all_iff numeral_2_eq_2)
qed

subsection \<open>Extra keyword arguments\<close>

text \<open>
  Claim C10. \<open>run\<close> accepts extra keyword arguments and never reads them: two calls that
  differ only in the extra keyword arguments make the same calls on the steps and the
  tracker, and raise the same exception or return the same pair of lists.
\<close>

theorem run_ignores_kwargs:
  "run self initial_state frm to (kwargs1 :: (string \<times> 'a) list) =
   run self initial_state frm to (kwargs2 :: (string \<times> 'b) list)"
  by (simp add: run_def)

subsection \<open>What a normal return looks like\<close>

text \<open>
  Claim C1. Whenever \<open>run\<close> returns normally, the list of states is one longer than the
  list of executed steps and starts with the caller's initial state; the executed steps
  are a subsequence of the pipeline in pipeline order; they are exactly the steps whose
  \<open>start\<close> was called, and every other step of the pipeline was skipped (its stage was
  closed with \<open>no_increment_ordinal\<close>). With neither \<open>frm\<close> nor \<open>to\<close>, a pipeline
  of \<open>N\<close> steps gives \<open>N\<close> executed steps, the pipeline itself, and \<open>N + 1\<close> states.
\<close>

theorem run_returns_trace:
  assumes "run self S frm to kw = (ev, Inr (states, executed))"
  shows "length states = 1 + length executed \<and> states ! 0 = S \<and>
         subseq executed (Steps self) \<and> map fst (calls ev) = executed \<and>
         count_list ev (EndStage True) + length executed = length (Steps self) \<and>
         (frm = None \<and> to = None \<longrightarrow>
            executed = Steps self \<and> length states = length (Steps self) + 1)"
proof -
  let ?l0 = "\<lparr>state_list = [S], step_list = [], executing = (frm = None)\<rparr>"
  from assms obtain ev0 l' where
    f: "for_loop frm to (Steps self) ?l0 = (ev0, Inr l')" and
    e: "ev = SetMaxStageCount (length (Steps self)) # ev0" and
    s: "states = state_list l'" "executed = step_list l'"
    by (auto simp: run_def Let_def split: prod.splits sum.splits)
  from for_loop_Inr_shape[OF f] obtain more where
    m: "states = S # more" "length more = length executed" "subseq executed (Steps self)"
       "map fst (calls ev0) = executed"
       "count_list ev0 (EndStage True) + length executed = length (Steps self)"
    using s by auto
  have "frm = None \<and> to = None \<longrightarrow> executed = Steps self"
    using f s for_loop_unbounded[of frm "Steps self" ?l0 ev0 l'] by auto
  with m e show ?thesis by auto
qed

theorem run_returns_trace_witness:
  "\<exists>ev states executed.
     run (flow_of [tool ''syn'', needs ''syn'' ''place'']) [] None None no_kwargs =
       (ev, Inr (states, executed)) \<and>
     length states = 1 + length executed \<and> states ! 0 = [] \<and>
     subseq executed [tool ''syn'', needs ''syn'' ''place''] \<and>
     map fst (calls ev) = executed \<and>
     executed = [tool ''syn'', needs ''syn'' ''place''] \<and> length states = 3"
proof -
  let ?F = "flow_of [tool ''syn'', needs ''syn'' ''place'']"
  obtain ev states executed where
    r: "run ?F [] None None no_kwargs = (ev, Inr (states, executed))"
    by (simp add: run_def flow_of_def tool_def needs_def loop_body_def start_def)
  from run_returns_trace [OF r] r show ?thesis
    by (simp add: flow_of_def)
qed

subsection \<open>A start boundary that matches no step\<close>

text \<open>
  Claim C6. When \<open>frm\<close> is given and is the id of no step of the pipeline, \<open>run\<close> calls
  \<open>start\<close> on no step: every step opens a stage and closes it as skipped, and the result
  is the one-element list of the initial state with no executed step, whatever \<open>to\<close> is.
\<close>

theorem run_unmatched_from:
  assumes "f \<notin> step_id ` set (Steps self)"
  shows "run self S (Some f) to kw =
           (SetMaxStageCount (length (Steps self)) #
              concat (map (\<lambda>x. [StartStage (step_name x), EndStage True]) (Steps self)),
            Inr ([S], []))"
proof -
  have "\<forall>x\<in>set (Steps self). Some f \<noteq> Some (step_id x)" using assms by auto
  then show ?thesis
    by (simp add: run_def for_loop_skipped)
qed

theorem run_unmatched_from_witness:
  "''cts'' \<notin> step_id ` set (Steps three_tools) \<and>
   run three_tools [''rtl''] (Some ''cts'') (Some ''place'') no_kwargs =
     ([SetMaxStageCount 3, StartStage ''syn'', EndStage True, StartStage ''place'',
       EndStage True, StartStage ''route'', EndStage True],
      Inr ([[''rtl'']], []))"
proof -
  have h: "''cts'' \<notin> step_id ` set (Steps three_tools)"
    by (simp add: three_tools_def flow_of_def tool_def)
  from run_unmatched_from [OF h, of "[''rtl'']" "Some ''place''" no_kwargs] h show ?thesis
    by (simp add: three_tools_def flow_of_def tool_def)
qed

subsection \<open>Stopping at the k-th step\<close>

text \<open>
  Claim C2, as stated, fails: with \<open>to\<close> the id of the second step and \<open>frm\<close> the same
  id, only the second step is executed, not the first two.
\<close>

theorem run_to_kth_counterexample:
  "distinct (map step_id (Steps three_tools)) \<and>
   list_all always_succeeds (Steps three_tools) \<and>
   step_id (Steps three_tools ! (2 - 1)) = ''place'' \<and>
   snd (run three_tools [] (Some ''place'') (Some ''place'') no_kwargs) =
     Inr ([[], [''place'']], [tool ''place'']) \<and>
   [tool ''place''] \<noteq> take 2 (Steps three_tools)"
  by (simp add: three_tools_def run_def flow_of_def tool_def loop_body_def start_def
      always_succeeds_def)

text \<open>
  Claim C2, amended. In a pipeline with distinct step ids whose steps all succeed, \<open>run\<close>
  with \<open>to\<close> the id of the \<open>k\<close>-th step returns normally; with no \<open>frm\<close> it executes
  exactly the first \<open>k\<close> steps, and with \<open>frm\<close> the id of the \<open>j\<close>-th step, \<open>j \<le> k\<close>, it
  executes exactly the \<open>k - j + 1\<close> steps from the \<open>j\<close>-th to the \<open>k\<close>-th. These are the
  steps on which \<open>start\<close> was called, in this order; the states returned are the initial
  state followed by what these calls returned; every other step closed its stage as
  skipped.
\<close>

theorem run_to_kth:
  assumes "distinct (map step_id (Steps self))" "\<forall>x\<in>set (Steps self). always_succeeds x"
    and "1 \<le> j" "j \<le> k" "k \<le> length (Steps self)"
    and "frm = None \<and> j = 1 \<or> frm = Some (step_id (Steps self ! (j - 1)))"
  shows "\<exists>ev states executed.
           run self S frm (Some (step_id (Steps self ! (k - 1)))) kw = (ev, Inr (states, executed)) \<and>
           executed = drop (j - 1) (take k (Steps self)) \<and>
           length executed = k - j + 1 \<and>
           map fst (calls ev) = executed \<and>
           states = S # returned (calls ev) \<and>
           length states = k - j + 2 \<and>
           count_list ev (EndStage True) = length (Steps self) - (k - j + 1)"
proof -
  let ?A = "take (j - 1) (Steps self)" and ?B = "drop (j - 1) (take k (Steps self))"
  let ?C = "drop k (Steps self)"
  have "take (j - 1) (take k (Steps self)) = ?A" using assms(3,4) by (simp add: min_def)
  then have "?A @ ?B = take k (Steps self)"
    by (metis append_take_drop_id)
  then have st: "Steps self = ?A @ ?B @ ?C" by (metis append_assoc append_take_drop_id)
  have len: "length ?B = k - j + 1" using assms(3,4,5) by simp
  then have ne: "?B \<noteq> []" by auto
  have hdB: "hd ?B = Steps self ! (j - 1)"
    using assms(3,4,5) by (simp add: hd_drop_conv_nth)
  have "last ?B = last (take k (Steps self))" using assms(3,4,5) by simp
  also have "\<dots> = Steps self ! (k - 1)"
  proof -
    have "take k (Steps self) \<noteq> []" using assms(3,4,5) by auto
    then show ?thesis using assms(3,4,5) by (simp add: last_conv_nth min_def)
  qed
  finally have laB: "last ?B = Steps self ! (k - 1)" .
  have fr: "?A = [] \<and> frm = None \<or> frm = Some (step_id (hd ?B))"
    using assms(6) hdB by auto
  have tt: "?C = [] \<and> Some (step_id (Steps self ! (k - 1))) = None \<or>
            Some (step_id (Steps self ! (k - 1))) = Some (step_id (last ?B))"
    using laB by simp
  have su: "\<forall>b\<in>set ?B. always_succeeds b"
    using assms(2) by (meson in_set_dropD in_set_takeD)
  from run_window_distinct[OF st ne assms(1) fr tt su, of S kw] obtain ev states where
    r: "run self S frm (Some (step_id (Steps self ! (k - 1)))) kw = (ev, Inr (states, ?B))"
    by blast
  from run_normal_calls[OF r] len have
    c: "map fst (calls ev) = ?B" "states = S # returned (calls ev)"
       "length states = k - j + 2"
       "count_list ev (EndStage True) = length (Steps self) - (k - j + 1)"
    by auto
  show ?thesis
    apply (rule exI[of _ ev])
    apply (rule exI[of _ states])
    apply (rule exI[of _ ?B])
    using r len c by simp
qed

theorem run_to_kth_witness:
  "distinct (map step_id (Steps three_tools)) \<and>
   list_all always_succeeds (Steps three_tools) \<and>
   (\<exists>ev states.
      run three_tools [] None (Some ''place'') no_kwargs =
        (ev, Inr (states, [tool ''syn'', tool ''place''])) \<and>
      map fst (calls ev) = [tool ''syn'', tool ''place''] \<and>
      states = [] # returned (calls ev) \<and> length states = 3 \<and>
      count_list ev (EndStage True) = 1)"
proof -
  have d: "distinct (map step_id (Steps three_tools))"
    by (simp add: three_tools_def flow_of_def tool_def)
  have a: "\<forall>x\<in>set (Steps three_tools). always_succeeds x"
    by (simp add: three_tools_def flow_of_def tool_def always_succeeds_def)
  have k: "(1::nat) \<le> 1" "(1::nat) \<le> 2" "2 \<le> length (Steps three_tools)"
    by (simp_all add: three_tools_def flow_of_def)
  have f: "None = None \<and> (1::nat) = 1 \<or>
           None = Some (step_id (Steps three_tools ! (1 - 1)))"
    by simp
  from run_to_kth [OF d a k f, of "[]" no_kwargs] d a show ?thesis
    by (simp add: three_tools_def flow_of_def tool_def list_all_iff numeral_2_eq_2)
qed

subsection \<open>Building a flow from step ids\<close>

lemma make_loop_find:
  "make_loop factory ids acc =
     (case List.find (\<lambda>n. factory n = None) ids of
        Some n \<Rightarrow> Inl (TypeError (''No step found with id '' @ [CHR 0x27] @ n @ [CHR 0x27]))
      | None \<Rightarrow> Inr (acc @ map (\<lambda>n. the (factory n)) ids))"
  by (induction ids arbitrary: acc) (auto split: option.splits)

text \<open>
  Claim C8. \<open>make\<close> raises \<open>TypeError\<close> with the message naming the first id of the
  sequence that the registry does not know, and returns no flow then; when the registry
  knows every id, it returns the flow named \<open>Custom Sequential Flow\<close> whose steps are
  the registered definitions of the ids, in the order given. No step is started either way.
\<close>

theorem make_first_unknown:
  "make_flow factory step_ids =
     (case List.find (\<lambda>n. factory n = None) step_ids of
        Some n \<Rightarrow> Inl (TypeError (''No step found with id '' @ [CHR 0x27] @ n @ [CHR 0x27]))
      | None \<Rightarrow> Inr \<lparr>flow_name = ''Custom Sequential Flow'',
                      Steps = map (\<lambda>n. the (factory n)) step_ids\<rparr>)"
  by (simp add: make_flow_def make_loop_find split: option.splits)

theorem make_first_unknown_witness:
  "make_flow [''a'' \<mapsto> tool ''a'', ''c'' \<mapsto> tool ''c''] [''a'', ''b'', ''c'', ''d''] =
     Inl (TypeError (''No step found with id '' @ [CHR 0x27] @ ''b'' @ [CHR 0x27])) \<and>
   make_flow [''a'' \<mapsto> tool ''a'', ''c'' \<mapsto> tool ''c''] [''c'', ''a'', ''c''] =
     Inr \<lparr>flow_name = ''Custom Sequential Flow'',
          Steps = [tool ''c'', tool ''a'', tool ''c'']\<rparr>"
  using make_first_unknown [of "[''a'' \<mapsto> tool ''a'', ''c'' \<mapsto> tool ''c'']" "[''a'', ''b'', ''c'', ''d'']"]
    make_first_unknown [of "[''a'' \<mapsto> tool ''a'', ''c'' \<mapsto> tool ''c'']" "[''c'', ''a'', ''c'']"]
  by simp

subsection \<open>Failing steps\<close>

lemma set_calls: "(step, res) \<in> set (calls ev) \<longleftrightarrow> StepStart step res \<in> set ev"
  by (induction ev rule: calls.induct) auto

lemma for_loop_failure:
  "for_loop frm to xs l = (ev, r) \<Longrightarrow>
   (case r of
      Inr l' \<Rightarrow> (\<forall>c\<in>set (calls ev). \<exists>s. snd c = Returned s)
    | Inl e \<Rightarrow> (\<exists>pre step res. ev = pre @ [StepStart step res] \<and>
         (\<forall>c\<in>set (calls pre). \<exists>s. snd c = Returned s) \<and>
         ((\<exists>m. res = MissingInputError m \<and> e = FlowException m) \<or>
          (\<exists>m. res = CalledProcessError m \<and> e = FlowError m) \<or>
          (\<exists>m. res = OtherException m \<and> e = Propagated m))))"
proof (induction xs arbitrary: l ev)
  case Nil
  then show ?case by auto
next
  case (Cons x xs)
  from Cons.prems show ?case
  proof (cases rule: for_loop_Cons_cases)
    case (raised e)
    from loop_body_raised[OF raised(1)] raised(2) show ?thesis
      by (auto intro!: exI[of _ "[StartStage (step_name x)]"])
  next
    case (continued ev1 l1 ev2)
    have c1: "\<forall>c\<in>set (calls ev1). \<exists>s. snd c = Returned s"
      using continued(1) by (cases rule: loop_body_InrE) auto
    show ?thesis
    proof (cases r)
      case (Inl e)
      with Cons.IH[OF continued(2)] obtain pre step res where
        p: "ev2 = pre @ [StepStart step res]"
          "\<forall>c\<in>set (calls pre). \<exists>s. snd c = Returned s"
          "(\<exists>m. res = MissingInputError m \<and> e = FlowException m) \<or>
          (\<exists>m. res = CalledProcessError m \<and> e = FlowError m) \<or>
          (\<exists>m. res = OtherException m \<and> e = Propagated m)"
        by auto
      have "ev = (ev1 @ pre) @ [StepStart step res]" using continued(3) p(1) by simp
      moreover have "\<forall>c\<in>set (calls (ev1 @ pre)). \<exists>s. snd c = Returned s"
        using c1 p(2) by (auto simp: calls_append)
      ultimately show ?thesis using Inl p(3) by (simp del: append_assoc)
    next
      case (Inr l')
      with Cons.IH[OF continued(2)] c1 continued(3) show ?thesis
        by (auto simp: calls_append)
    qed
  qed
qed

text \<open>
  Claim C4. \<open>run\<close> raises \<open>FlowException\<close> with message \<open>m\<close> exactly when a call of
  \<open>start\<close> it made raised \<open>MissingInputError\<close> with message \<open>m\<close>, and \<open>FlowError\<close>
  with message \<open>m\<close> exactly when a call of \<open>start\<close> raised \<open>CalledProcessError\<close> with
  message \<open>m\<close>. Nothing happens after a call of \<open>start\<close> that did not return: it is the
  last recorded call of the run, so no later step is started and no stage is opened or
  closed after it.
\<close>

theorem run_failure_classes:
  assumes "run self S frm to kw = (ev, r)"
  shows "(r = Inl (FlowException m) \<longleftrightarrow> (\<exists>step. (step, MissingInputError m) \<in> set (calls ev))) \<and>
         (r = Inl (FlowError m) \<longleftrightarrow> (\<exists>step. (step, CalledProcessError m) \<in> set (calls ev))) \<and>
         (\<forall>pre step res post.
            ev = pre @ StepStart step res # post \<and> (\<forall>s. res \<noteq> Returned s) \<longrightarrow> post = [])"
proof -
  let ?l0 = "\<lparr>state_list = [S], step_list = [], executing = (frm = None)\<rparr>"
  obtain ev0 r0 where f: "for_loop frm to (Steps self) ?l0 = (ev0, r0)" by fastforce
  with assms have e: "ev = SetMaxStageCount (length (Steps self)) # ev0"
    and r: "r = map_sum id (\<lambda>l. (state_list l, step_list l)) r0"
    by (auto simp: run_def Let_def split: sum.splits)
  have cs: "calls ev = calls ev0" using e by simp
  show ?thesis
  proof (cases r0)
    case (Inr l')
    with for_loop_failure[OF f] have all: "\<forall>c\<in>set (calls ev0). \<exists>s. snd c = Returned s" by simp
    have ret: "\<And>pre step res post. ev = pre @ StepStart step res # post \<Longrightarrow> \<exists>s. res = Returned s"
    proof -
      fix pre step res post assume "ev = pre @ StepStart step res # post"
      then have "(step, res) \<in> set (calls ev)" by (simp add: set_calls)
      with all cs show "\<exists>s. res = Returned s" by fastforce
    qed
    have c: "\<forall>pre step res post.
            ev = pre @ StepStart step res # post \<and> (\<forall>s. res \<noteq> Returned s) \<longrightarrow> post = []"
      using ret by blast
    have a: "\<not> (\<exists>step. (step, MissingInputError m) \<in> set (calls ev))"
      and b: "\<not> (\<exists>step. (step, CalledProcessError m) \<in> set (calls ev))"
      using all cs by fastforce+
    have "r \<noteq> Inl (FlowException m)" "r \<noteq> Inl (FlowError m)" using r Inr by simp_all
    with a b c show ?thesis by blast
  next
    case (Inl e0)
    with for_loop_failure[OF f] obtain pre0 step0 res0 where
      p: "ev0 = pre0 @ [StepStart step0 res0]"
         "\<forall>c\<in>set (calls pre0). \<exists>s. snd c = Returned s"
         "(\<exists>m. res0 = MissingInputError m \<and> e0 = FlowException m) \<or>
          (\<exists>m. res0 = CalledProcessError m \<and> e0 = FlowError m) \<or>
          (\<exists>m. res0 = OtherException m \<and> e0 = Propagated m)"
      by auto
    have rr: "r = Inl e0" using r Inl by simp
    have mem: "\<And>step res. (step, res) \<in> set (calls ev) \<Longrightarrow> (\<forall>s. res \<noteq> Returned s)
        \<Longrightarrow> step = step0 \<and> res = res0"
      using cs p(1,2) by (fastforce simp: calls_append)
    have last: "(step0, res0) \<in> set (calls ev)" using cs p(1) by (simp add: calls_append)
    have a: "r = Inl (FlowException m) \<longleftrightarrow> (\<exists>step. (step, MissingInputError m) \<in> set (calls ev))"
      using rr p(3) mem[of _ "MissingInputError m"] last by auto
    have b: "r = Inl (FlowError m) \<longleftrightarrow> (\<exists>step. (step, CalledProcessError m) \<in> set (calls ev))"
      using rr p(3) mem[of _ "CalledProcessError m"] last by auto
    have c: "\<And>pre step res post.
            ev = pre @ StepStart step res # post \<Longrightarrow> (\<forall>s. res \<noteq> Returned s) \<Longrightarrow> post = []"
    proof (rule ccontr)
      fix pre step res post
      assume h: "ev = pre @ StepStart step res # post" "\<forall>s. res \<noteq> Returned s" "post \<noteq> []"
      have "ev = (SetMaxStageCount (length (Steps self)) # pre0) @ [StepStart step0 res0]"
        using e p(1) by simp
      with h(1,3) have "pre @ StepStart step res # butlast post = SetMaxStageCount (length (Steps self)) # pre0"
        by (metis append_assoc append_butlast_last_id butlast.simps(2) butlast_append butlast_snoc list.distinct(1))
      then have "StepStart step res \<in> set pre0"
        by (metis in_set_conv_decomp set_ConsD event.distinct(5))
      then have "(step, res) \<in> set (calls pre0)" by (simp add: set_calls)
      with p(2) h(2) show False by fastforce
    qed
    from a b c show ?thesis by blast
  qed
qed

theorem run_failure_classes_witness:
  "\<exists>ev. run (flow_of [tool ''syn'', needs ''syn'' ''place'', tool ''route'']) []
            (Some ''place'') None no_kwargs = (ev, Inl (FlowException ''syn'')) \<and>
     (\<exists>step. (step, MissingInputError ''syn'') \<in> set (calls ev)) \<and>
     (\<nexists>step. (step, CalledProcessError ''syn'') \<in> set (calls ev))"
proof -
  obtain ev where
    r: "run (flow_of [tool ''syn'', needs ''syn'' ''place'', tool ''route'']) []
            (Some ''place'') None no_kwargs = (ev, Inl (FlowException ''syn''))"
    by (simp add: run_def flow_of_def tool_def needs_def loop_body_def start_def Let_def)
  from run_failure_classes [OF r, of "''syn''"] r show ?thesis
    by auto
qed

subsection \<open>The calls on the progress tracker\<close>

lemma tracker_calls_append: "tracker_calls (a @ b) = tracker_calls a @ tracker_calls b"
  by (induction a rule: tracker_calls.induct) simp_all

lemma track_append: "track (a @ b) p = track b (track a p)"
  by (induction a arbitrary: p) simp_all

lemma for_loop_stages:
  "for_loop frm to xs l = (ev, r) \<Longrightarrow>
   \<exists>skipped. length skipped \<le> length xs \<and>
     tracker_calls ev = stages (zip xs skipped) @
       (case r of Inl e \<Rightarrow> [StartStage (step_name (xs ! length skipped))] | Inr l' \<Rightarrow> []) \<and>
     (case r of Inl e \<Rightarrow> length skipped < length xs
      | Inr l' \<Rightarrow> length skipped = length xs \<and>
          step_list l' = step_list l @ map fst (filter (\<lambda>p. \<not> snd p) (zip xs skipped))) \<and>
     ordinal (track ev p) = ordinal p + length (filter Not skipped)"
proof (induction xs arbitrary: l ev p)
  case Nil
  then show ?case by auto
next
  case (Cons x xs)
  from Cons.prems show ?case
  proof (cases rule: for_loop_Cons_cases)
    case (raised e)
    from loop_body_raised[OF raised(1)] raised(2) show ?thesis
      by (intro exI[of _ "[]"]) simp
  next
    case (continued ev1 l1 ev2)
    from Cons.IH[OF continued(2), of "track ev1 p"] obtain skipped where
      ih: "length skipped \<le> length xs"
      "tracker_calls ev2 = stages (zip xs skipped) @
       (case r of Inl e \<Rightarrow> [StartStage (step_name (xs ! length skipped))] | Inr l' \<Rightarrow> [])"
      "(case r of Inl e \<Rightarrow> length skipped < length xs
      | Inr l' \<Rightarrow> length skipped = length xs \<and>
          step_list l' = step_list l1 @ map fst (filter (\<lambda>p. \<not> snd p) (zip xs skipped)))"
      "ordinal (track ev2 (track ev1 p)) = ordinal (track ev1 p) + length (filter Not skipped)"
      by blast
    from continued(1) show ?thesis
    proof (cases rule: loop_body_InrE)
      case skipped
      with ih continued(3) show ?thesis
        by (intro exI[of _ "True # skipped"])
           (auto simp: tracker_calls_append track_append split: sum.splits)
    next
      case (executed s')
      with ih continued(3) show ?thesis
        by (intro exI[of _ "False # skipped"])
           (auto simp: tracker_calls_append track_append split: sum.splits)
    qed
  qed
qed

text \<open>
  Claim C3, as stated, fails for a failing step: the iteration of a step whose \<open>start\<close>
  raises opens a stage and never closes it.
\<close>

theorem run_stage_calls_counterexample:
  "run (flow_of [crash ''route'']) [] None None no_kwargs =
     ([SetMaxStageCount 1, StartStage ''route'',
       StepStart (crash ''route'') (CalledProcessError ''route'')],
      Inl (FlowError ''route'')) \<and>
   tracker_calls (fst (run (flow_of [crash ''route'']) [] None None no_kwargs)) =
     [SetMaxStageCount 1, StartStage ''route'']"
  by (simp add: run_def flow_of_def crash_def loop_body_def start_def Let_def)

text \<open>
  Claim C3, amended. Every call of \<open>run\<close> calls \<open>set_max_stage_count\<close> once, first, with
  the number of step definitions. Every iteration that completes, for an executed step
  that returns and for a skipped step alike, calls \<open>start_stage\<close> once and then
  \<open>end_stage\<close> once; the skipped steps close with \<open>no_increment_ordinal\<close> set and leave
  the ordinal as it is, the executed steps that return advance it by one each, and the
  executed steps are the steps not skipped. When a step fails, its iteration has opened
  the stage and the run ends there: that stage is not closed.
\<close>

theorem run_stage_calls:
  assumes "run self S frm to kw = (ev, r)"
  shows "\<exists>skipped. length skipped \<le> length (Steps self) \<and>
     tracker_calls ev = SetMaxStageCount (length (Steps self)) # stages (zip (Steps self) skipped) @
       (case r of Inl e \<Rightarrow> [StartStage (step_name (Steps self ! length skipped))] | Inr res \<Rightarrow> []) \<and>
     (case r of Inl e \<Rightarrow> length skipped < length (Steps self)
      | Inr res \<Rightarrow> length skipped = length (Steps self) \<and>
          snd res = map fst (filter (\<lambda>p. \<not> snd p) (zip (Steps self) skipped))) \<and>
     ordinal (track ev p) = ordinal p + length (filter Not skipped)"
proof -
  let ?l0 = "\<lparr>state_list = [S], step_list = [], executing = (frm = None)\<rparr>"
  obtain ev0 r0 where f: "for_loop frm to (Steps self) ?l0 = (ev0, r0)" by fastforce
  with assms have e: "ev = SetMaxStageCount (length (Steps self)) # ev0"
    and r: "r = map_sum id (\<lambda>l. (state_list l, step_list l)) r0"
    by (auto simp: run_def Let_def split: sum.splits)
  from for_loop_stages[OF f, of "p\<lparr>max_stage_count := length (Steps self)\<rparr>"]
  obtain skipped where s: "length skipped \<le> length (Steps self)"
     "tracker_calls ev0 = stages (zip (Steps self) skipped) @
       (case r0 of Inl e \<Rightarrow> [StartStage (step_name (Steps self ! length skipped))] | Inr l' \<Rightarrow> [])"
     "(case r0 of Inl e \<Rightarrow> length skipped < length (Steps self)
      | Inr l' \<Rightarrow> length skipped = length (Steps self) \<and>
          step_list l' = step_list ?l0 @ map fst (filter (\<lambda>p. \<not> snd p) (zip (Steps self) skipped)))"
     "ordinal (track ev0 (p\<lparr>max_stage_count := length (Steps self)\<rparr>)) =
        ordinal (p\<lparr>max_stage_count := length (Steps self)\<rparr>) + length (filter Not skipped)"
    by blast
  show ?thesis
    using s e r by (intro exI[of _ skipped]) (cases r0; simp)
qed

theorem run_stage_calls_witness:
  "\<exists>ev states skipped.
     run three_tools [] (Some ''place'') None no_kwargs =
       (ev, Inr (states, [tool ''place'', tool ''route''])) \<and>
     length skipped = 3 \<and>
     tracker_calls ev = SetMaxStageCount 3 # stages (zip (Steps three_tools) skipped) \<and>
     [tool ''place'', tool ''route''] =
       map fst (filter (\<lambda>p. \<not> snd p) (zip (Steps three_tools) skipped)) \<and>
     ordinal (track ev \<lparr>ordinal = 0, max_stage_count = 0, current_stage = None\<rparr>) =
       length (filter Not skipped)"
proof -
  obtain ev states where
    r: "run three_tools [] (Some ''place'') None no_kwargs =
          (ev, Inr (states, [tool ''place'', tool ''route'']))"
    by (simp add: three_tools_def run_def flow_of_def tool_def loop_body_def start_def Let_def)
  have n: "length (Steps three_tools) = 3" by (simp add: three_tools_def flow_of_def)
  from run_stage_calls [OF r, of "\<lparr>ordinal = 0, max_stage_count = 0, current_stage = None\<rparr>"]
  obtain skipped where s: "length skipped = 3"
    "tracker_calls ev = SetMaxStageCount 3 # stages (zip (Steps three_tools) skipped)"
    "[tool ''place'', tool ''route''] =
       map fst (filter (\<lambda>p. \<not> snd p) (zip (Steps three_tools) skipped))"
    "ordinal (track ev \<lparr>ordinal = 0, max_stage_count = 0, current_stage = None\<rparr>) =
       length (filter Not skipped)"
    using n by auto
  show ?thesis
    apply (rule exI[of _ ev])
    apply (rule exI[of _ states])
    apply (rule exI[of _ skipped])
    using r s by simp
qed

subsection \<open>Threading the state through the executed steps\<close>

text \<open>
  Claim C5. At the \<open>i\<close>-th call of \<open>start\<close> the list of states holds the initial state
  and the states returned by the calls before it; the outcome of the call is the step's
  run operation applied to the last element of that list. When \<open>run\<close> returns, the list
  of states is the initial state followed by the states the calls returned, in order, and
  the executed steps are the steps called.
\<close>

theorem run_threads_states:
  assumes "run self S frm to kw = (ev, r)"
  shows "(\<forall>i<length (calls ev).
            snd (calls ev ! i) =
              step_run (fst (calls ev ! i)) (last (S # returned (take i (calls ev))))) \<and>
         (\<forall>states executed. r = Inr (states, executed) \<longrightarrow>
            states = S # returned (calls ev) \<and> executed = map fst (calls ev))"
proof -
  let ?l0 = "\<lparr>state_list = [S], step_list = [], executing = (frm = None)\<rparr>"
  obtain ev0 r0 where f: "for_loop frm to (Steps self) ?l0 = (ev0, r0)" by fastforce
  with assms have e: "ev = SetMaxStageCount (length (Steps self)) # ev0"
    and r: "r = map_sum id (\<lambda>l. (state_list l, step_list l)) r0"
    by (auto simp: run_def Let_def split: sum.splits)
  have cs: "calls ev = calls ev0" using e by simp
  from for_loop_threaded[OF f] have t: "threaded S (calls ev)"
    and l: "case r0 of Inl e \<Rightarrow> True
      | Inr l' \<Rightarrow> state_list l' = [S] @ returned (calls ev) \<and>
          step_list l' = [] @ map fst (calls ev)"
    using cs by (simp, cases r0, simp_all)
  have a: "\<forall>i<length (calls ev).
            snd (calls ev ! i) =
              step_run (fst (calls ev ! i)) (last (S # returned (take i (calls ev))))"
    using threaded_nth[OF t] by blast
  have b: "\<forall>states executed. r = Inr (states, executed) \<longrightarrow>
            states = S # returned (calls ev) \<and> executed = map fst (calls ev)"
    using l r by (cases r0) auto
  from a b show ?thesis by blast
qed

theorem run_threads_states_witness:
  "\<exists>ev states executed.
     run (flow_of [tool ''syn'', needs ''syn'' ''place'']) [] None None no_kwargs =
       (ev, Inr (states, executed)) \<and>
     states = [] # returned (calls ev) \<and> executed = map fst (calls ev) \<and>
     snd (calls ev ! 1) = step_run (fst (calls ev ! 1)) (last ([] # returned (take 1 (calls ev)))) \<and>
     snd (calls ev ! 1) = Returned [''syn'', ''place'']"
proof -
  obtain ev states executed where
    r: "run (flow_of [tool ''syn'', needs ''syn'' ''place'']) [] None None no_kwargs =
          (ev, Inr (states, executed))"
    and c: "length (calls ev) = 2" "snd (calls ev ! 1) = Returned [''syn'', ''place'']"
    by (simp add: run_def flow_of_def tool_def needs_def loop_body_def start_def Let_def)
  from run_threads_states [OF r] r c show ?thesis
    by auto
qed

subsection \<open>The stop boundary is tested after an executed step only\<close>

lemma run_skipped_step:
  assumes st: "Steps self = pre @ x # post"
    and pre: "for_loop frm to pre
                \<lparr>state_list = [S], step_list = [], executing = (frm = None)\<rparr> = (ev1, Inr l)"
    and sk: "\<not> executing l" "frm \<noteq> Some (step_id x)"
    and post: "for_loop frm to post l = (ev2, r2)"
  shows "loop_body frm to x l = ([StartStage (step_name x), EndStage True], Inr l) \<and>
         loop_body frm to x l = loop_body frm None x l \<and>
         run self S frm to kw =
           (SetMaxStageCount (length (Steps self)) # ev1 @
              StartStage (step_name x) # EndStage True # ev2,
            case r2 of Inl e \<Rightarrow> Inl e | Inr l' \<Rightarrow> Inr (state_list l', step_list l'))"
proof -
  have b: "loop_body frm to x l = ([StartStage (step_name x), EndStage True], Inr l)"
    by (rule loop_body_skip[OF sk])
  have b': "loop_body frm None x l = ([StartStage (step_name x), EndStage True], Inr l)"
    by (rule loop_body_skip[OF sk])
  have "for_loop frm to (x # post) l =
          (StartStage (step_name x) # EndStage True # ev2, r2)"
    using b post by simp
  then have "for_loop frm to (pre @ x # post)
               \<lparr>state_list = [S], step_list = [], executing = (frm = None)\<rparr> =
             (ev1 @ StartStage (step_name x) # EndStage True # ev2, r2)"
    using pre by (simp add: for_loop_append)
  then have "run self S frm to kw =
           (SetMaxStageCount (length (Steps self)) # ev1 @
              StartStage (step_name x) # EndStage True # ev2,
            case r2 of Inl e \<Rightarrow> Inl e | Inr l' \<Rightarrow> Inr (state_list l', step_list l'))"
    using st by (cases r2) (simp_all add: run_def)
  with b b' show ?thesis by simp
qed

lemma run_two_windows:
  assumes st: "Steps self = A @ B @ C @ D" and ne: "B \<noteq> []" "D \<noteq> []"
    and f: "step_id (hd B) = f" "step_id (hd D) = f" "\<forall>a\<in>set (A @ C). step_id a \<noteq> f"
    and t: "step_id (last B) = t" "\<forall>b\<in>set (butlast B). step_id b \<noteq> t"
      "\<forall>d\<in>set D. step_id d \<noteq> t"
    and su: "\<forall>x\<in>set (B @ D). always_succeeds x"
  shows "\<exists>evB evD states.
           run self S (Some f) (Some t) kw =
             (SetMaxStageCount (length (Steps self)) #
                concat (map (\<lambda>x. [StartStage (step_name x), EndStage True]) A) @ evB @
                concat (map (\<lambda>x. [StartStage (step_name x), EndStage True]) C) @ evD,
              Inr (states, B @ D)) \<and>
           map fst (calls evB) = B \<and> map fst (calls evD) = D \<and>
           states = S # returned (calls evB) @ returned (calls evD) \<and>
           length states = Suc (length B + length D)"
proof -
  let ?l0 = "\<lparr>state_list = [S], step_list = [], executing = (Some f = None)\<rparr>"
  let ?skip = "\<lambda>xs. concat (map (\<lambda>x. [StartStage (step_name x), EndStage True]) xs)"
  have a: "for_loop (Some f) (Some t) A ?l0 = (?skip A, Inr ?l0)"
    using f(3) by (intro for_loop_skipped) auto
  have "executing ?l0 \<or> Some f = Some (step_id (hd B))" using f(1) by simp
  moreover have "Some t = Some (step_id (last B))" using t(1) by simp
  moreover have "\<forall>x\<in>set (butlast B). step_id x \<noteq> step_id (last B)" using t(1,2) by simp
  moreover have "\<forall>x\<in>set B. always_succeeds x" using su by simp
  ultimately obtain evB l1 where
    b: "for_loop (Some f) (Some t) B ?l0 = (evB, Inr l1)" "step_list l1 = step_list ?l0 @ B"
       "\<not> executing l1"
    using for_loop_window[OF ne(1), of ?l0 "Some f" "Some t"] by blast
  have c: "for_loop (Some f) (Some t) C l1 = (?skip C, Inr l1)"
    using f(3) b(3) by (intro for_loop_skipped) auto
  have "executing l1 \<or> (D \<noteq> [] \<and> Some f = Some (step_id (hd D)))" using ne(2) f(2) by simp
  moreover have "\<forall>x\<in>set D. Some t \<noteq> Some (step_id x)" using t(3) by auto
  moreover have "\<forall>x\<in>set D. always_succeeds x" using su by simp
  ultimately obtain evD l2 where
    d: "for_loop (Some f) (Some t) D l1 = (evD, Inr l2)" "step_list l2 = step_list l1 @ D"
    using for_loop_open[of l1 D "Some f" "Some t"] by blast
  from for_loop_threaded[OF b(1)] have
    tb: "state_list l1 = [S] @ returned (calls evB)" "step_list l1 = [] @ map fst (calls evB)"
    by simp_all
  from for_loop_threaded[OF d(1)] have
    td: "state_list l2 = state_list l1 @ returned (calls evD)"
        "step_list l2 = step_list l1 @ map fst (calls evD)"
    by simp_all
  have cB: "map fst (calls evB) = B" using tb(2) b(2) by simp
  have cD: "map fst (calls evD) = D" using td(2) d(2) by simp
  have len: "length (returned (calls evB)) = length B" "length (returned (calls evD)) = length D"
    using for_loop_Inr_shape[OF b(1)] for_loop_Inr_shape[OF d(1)] tb(1) td(1) cB cD by auto
  have "for_loop (Some f) (Some t) (A @ B @ C @ D) ?l0 = (?skip A @ evB @ ?skip C @ evD, Inr l2)"
    using a b(1) c d(1) by (simp add: for_loop_append)
  then have "run self S (Some f) (Some t) kw =
             (SetMaxStageCount (length (Steps self)) # ?skip A @ evB @ ?skip C @ evD,
              Inr (S # returned (calls evB) @ returned (calls evD), B @ D))"
    using st b(2) d(2) tb(1) td(1) by (simp add: run_def)
  then show ?thesis
    apply -
    apply (rule exI[of _ evB])
    apply (rule exI[of _ evD])
    apply (rule exI[of _ "S # returned (calls evB) @ returned (calls evD)"])
    using cB cD len by simp
qed

text \<open>
  Claim C9. First part, for every run and every step \<open>x\<close> of the pipeline that the loop
  reaches with \<open>executing\<close> false and whose id is not \<open>frm\<close> (whether \<open>frm\<close> is given or
  not, and whatever \<open>to\<close> is, the id of \<open>x\<close> included): the iteration of \<open>x\<close> opens and
  closes a stage as skipped, calls \<open>start\<close> on nothing and leaves the local variables
  as they are, exactly as it does when no \<open>to\<close> is given, and the run goes on from these
  same local variables with the steps after \<open>x\<close>. Second part: when the pipeline is
  \<open>A @ B @ C @ D\<close>, \<open>B\<close> and \<open>D\<close> both begin with a step whose id is \<open>frm\<close>, \<open>B\<close> ends
  with its only step whose id is \<open>to\<close>, no step of \<open>A\<close> or \<open>C\<close> has the id \<open>frm\<close> (they
  may have the id \<open>to\<close>) and the steps of \<open>B\<close> and \<open>D\<close> succeed, the window closed at
  the end of \<open>B\<close> opens again at \<open>D\<close>: after the steps of \<open>C\<close> were skipped, \<open>start\<close>
  is called on every step of \<open>D\<close> in order, and the states these calls return follow
  those of \<open>B\<close> in the list of states.
\<close>

theorem run_reopens_window:
  "(Steps self = pre @ x # post \<and>
    for_loop frm to pre \<lparr>state_list = [S], step_list = [], executing = (frm = None)\<rparr> =
      (ev1, Inr l) \<and>
    \<not> executing l \<and> frm \<noteq> Some (step_id x) \<and> for_loop frm to post l = (ev2, r2) \<longrightarrow>
      loop_body frm to x l = ([StartStage (step_name x), EndStage True], Inr l) \<and>
      loop_body frm to x l = loop_body frm None x l \<and>
      run self S frm to kw =
        (SetMaxStageCount (length (Steps self)) # ev1 @
           StartStage (step_name x) # EndStage True # ev2,
         case r2 of Inl e \<Rightarrow> Inl e | Inr l' \<Rightarrow> Inr (state_list l', step_list l'))) \<and>
   (Steps self = A @ B @ C @ D \<and> B \<noteq> [] \<and> D \<noteq> [] \<and>
    step_id (hd B) = f \<and> step_id (hd D) = f \<and> (\<forall>a\<in>set (A @ C). step_id a \<noteq> f) \<and>
    step_id (last B) = t \<and> (\<forall>b\<in>set (butlast B). step_id b \<noteq> t) \<and>
    (\<forall>d\<in>set D. step_id d \<noteq> t) \<and> (\<forall>x\<in>set (B @ D). always_succeeds x) \<longrightarrow>
      (\<exists>evB evD states.
         run self S (Some f) (Some t) kw =
           (SetMaxStageCount (length (Steps self)) #
              concat (map (\<lambda>x. [StartStage (step_name x), EndStage True]) A) @ evB @
              concat (map (\<lambda>x. [StartStage (step_name x), EndStage True]) C) @ evD,
            Inr (states, B @ D)) \<and>
         map fst (calls evB) = B \<and> map fst (calls evD) = D \<and>
         states = S # returned (calls evB) @ returned (calls evD) \<and>
         length states = Suc (length B + length D)))"
proof (intro conjI impI)
  assume h: "Steps self = pre @ x # post \<and>
    for_loop frm to pre \<lparr>state_list = [S], step_list = [], executing = (frm = None)\<rparr> =
      (ev1, Inr l) \<and>
    \<not> executing l \<and> frm \<noteq> Some (step_id x) \<and> for_loop frm to post l = (ev2, r2)"
  then have h': "Steps self = pre @ x # post"
    "for_loop frm to pre \<lparr>state_list = [S], step_list = [], executing = (frm = None)\<rparr> =
      (ev1, Inr l)"
    "\<not> executing l" "frm \<noteq> Some (step_id x)" "for_loop frm to post l = (ev2, r2)"
    by simp_all
  note s = run_skipped_step[OF h', where kw = kw]
  from s show "loop_body frm to x l = ([StartStage (step_name x), EndStage True], Inr l)"
    by (rule conjunct1)
  from s show "loop_body frm to x l = loop_body frm None x l"
    by (rule conjunct1[OF conjunct2])
  from s show "run self S frm to kw =
        (SetMaxStageCount (length (Steps self)) # ev1 @
           StartStage (step_name x) # EndStage True # ev2,
         case r2 of Inl e \<Rightarrow> Inl e | Inr l' \<Rightarrow> Inr (state_list l', step_list l'))"
    by (rule conjunct2[OF conjunct2])
next
  assume h: "Steps self = A @ B @ C @ D \<and> B \<noteq> [] \<and> D \<noteq> [] \<and>
    step_id (hd B) = f \<and> step_id (hd D) = f \<and> (\<forall>a\<in>set (A @ C). step_id a \<noteq> f) \<and>
    step_id (last B) = t \<and> (\<forall>b\<in>set (butlast B). step_id b \<noteq> t) \<and>
    (\<forall>d\<in>set D. step_id d \<noteq> t) \<and> (\<forall>x\<in>set (B @ D). always_succeeds x)"
  then have h': "Steps self = A @ B @ C @ D" "B \<noteq> []" "D \<noteq> []"
    "step_id (hd B) = f" "step_id (hd D) = f" "\<forall>a\<in>set (A @ C). step_id a \<noteq> f"
    "step_id (last B) = t" "\<forall>b\<in>set (butlast B). step_id b \<noteq> t"
    "\<forall>d\<in>set D. step_id d \<noteq> t" "\<forall>x\<in>set (B @ D). always_succeeds x"
    by blast+
  show "\<exists>evB evD states.
         run self S (Some f) (Some t) kw =
           (SetMaxStageCount (length (Steps self)) #
              concat (map (\<lambda>x. [StartStage (step_name x), EndStage True]) A) @ evB @
              concat (map (\<lambda>x. [StartStage (step_name x), EndStage True]) C) @ evD,
            Inr (states, B @ D)) \<and>
         map fst (calls evB) = B \<and> map fst (calls evD) = D \<and>
         states = S # returned (calls evB) @ returned (calls evD) \<and>
         length states = Suc (length B + length D)"
    by (rule run_two_windows[OF h'])
qed

theorem run_reopens_window_witness:
  "(\<exists>ev1 ev2.
      run (flow_of [tool ''a'', tool ''b'', tool ''b'', tool ''a'', tool ''c'']) []
          None (Some ''b'') no_kwargs =
        (SetMaxStageCount 5 # ev1 @ StartStage ''b'' # EndStage True # ev2,
         Inr ([[], [''a''], [''a'', ''b'']], [tool ''a'', tool ''b''])) \<and>
      map fst (calls ev1) = [tool ''a'', tool ''b''] \<and> calls ev2 = []) \<and>
   (\<exists>evB evD states.
      run (flow_of [tool ''a'', tool ''b'', tool ''b'', tool ''a'', tool ''c'']) []
          (Some ''a'') (Some ''b'') no_kwargs =
        (SetMaxStageCount 5 # evB @ StartStage ''b'' # EndStage True # evD,
         Inr (states, [tool ''a'', tool ''b'', tool ''a'', tool ''c''])) \<and>
      map fst (calls evB) = [tool ''a'', tool ''b''] \<and>
      map fst (calls evD) = [tool ''a'', tool ''c''] \<and> length states = 5)"
proof -
  let ?F = "flow_of [tool ''a'', tool ''b'', tool ''b'', tool ''a'', tool ''c'']"
  let ?ev1 = "[StartStage ''a'', StepStart (tool ''a'') (Returned [''a'']), EndStage False,
               StartStage ''b'', StepStart (tool ''b'') (Returned [''a'', ''b'']), EndStage False]"
  let ?ev2 = "[StartStage ''a'', EndStage True, StartStage ''c'', EndStage True]"
  let ?l = "\<lparr>state_list = [[], [''a''], [''a'', ''b'']], step_list = [tool ''a'', tool ''b''],
             executing = False\<rparr>"
  have st1: "Steps ?F = [tool ''a'', tool ''b''] @ tool ''b'' # [tool ''a'', tool ''c'']"
    by (simp add: flow_of_def)
  have pre: "for_loop None (Some ''b'') [tool ''a'', tool ''b'']
               \<lparr>state_list = [[]], step_list = [], executing = (None = None)\<rparr> = (?ev1, Inr ?l)"
    by (simp add: tool_def loop_body_def start_def Let_def)
  have sk: "\<not> executing ?l" "None \<noteq> Some (step_id (tool ''b''))" by simp_all
  have post: "for_loop None (Some ''b'') [tool ''a'', tool ''c''] ?l = (?ev2, Inr ?l)"
    by (simp add: tool_def loop_body_def start_def Let_def)
  have st2: "Steps ?F = [] @ [tool ''a'', tool ''b''] @ [tool ''b''] @ [tool ''a'', tool ''c'']"
    by (simp add: flow_of_def)
  have ne: "[tool ''a'', tool ''b''] \<noteq> []" "[tool ''a'', tool ''c''] \<noteq> []" by simp_all
  have f: "step_id (hd [tool ''a'', tool ''b'']) = ''a''"
    "step_id (hd [tool ''a'', tool ''c'']) = ''a''"
    "\<forall>a\<in>set ([] @ [tool ''b'']). step_id a \<noteq> ''a''"
    by (simp_all add: tool_def)
  have t: "step_id (last [tool ''a'', tool ''b'']) = ''b''"
    "\<forall>b\<in>set (butlast [tool ''a'', tool ''b'']). step_id b \<noteq> ''b''"
    "\<forall>d\<in>set [tool ''a'', tool ''c'']. step_id d \<noteq> ''b''"
    by (simp_all add: tool_def)
  have su: "\<forall>x\<in>set ([tool ''a'', tool ''b''] @ [tool ''a'', tool ''c'']). always_succeeds x"
    by (simp add: tool_def always_succeeds_def)
  have n: "step_name (tool ''b'') = ''b''" "length (Steps ?F) = 5"
    by (simp_all add: tool_def flow_of_def)
  note w = run_reopens_window [of ?F "[tool ''a'', tool ''b'']" "tool ''b''"
      "[tool ''a'', tool ''c'']" None "Some ''b''" "[]" ?ev1 ?l ?ev2 "Inr ?l" no_kwargs
      "[]" "[tool ''a'', tool ''b'']" "[tool ''b'']" "[tool ''a'', tool ''c'']" "''a''" "''b''"]
  have h1: "Steps ?F = [tool ''a'', tool ''b''] @ tool ''b'' # [tool ''a'', tool ''c''] \<and>
    for_loop None (Some ''b'') [tool ''a'', tool ''b'']
      \<lparr>state_list = [[]], step_list = [], executing = (None = None)\<rparr> = (?ev1, Inr ?l) \<and>
    \<not> executing ?l \<and> None \<noteq> Some (step_id (tool ''b'')) \<and>
    for_loop None (Some ''b'') [tool ''a'', tool ''c''] ?l = (?ev2, Inr ?l)"
    using st1 pre sk post by (intro conjI)
  from mp [OF conjunct1 [OF w] h1]
  have p1: "run ?F [] None (Some ''b'') no_kwargs =
        (SetMaxStageCount 5 # ?ev1 @ StartStage ''b'' # EndStage True # ?ev2,
         Inr ([[], [''a''], [''a'', ''b'']], [tool ''a'', tool ''b'']))"
    using n by simp
  have h2: "Steps ?F = [] @ [tool ''a'', tool ''b''] @ [tool ''b''] @ [tool ''a'', tool ''c''] \<and>
    [tool ''a'', tool ''b''] \<noteq> [] \<and> [tool ''a'', tool ''c''] \<noteq> [] \<and>
    step_id (hd [tool ''a'', tool ''b'']) = ''a'' \<and>
    step_id (hd [tool ''a'', tool ''c'']) = ''a'' \<and>
    (\<forall>a\<in>set ([] @ [tool ''b'']). step_id a \<noteq> ''a'') \<and>
    step_id (last [tool ''a'', tool ''b'']) = ''b'' \<and>
    (\<forall>b\<in>set (butlast [tool ''a'', tool ''b'']). step_id b \<noteq> ''b'') \<and>
    (\<forall>d\<in>set [tool ''a'', tool ''c'']. step_id d \<noteq> ''b'') \<and>
    (\<forall>x\<in>set ([tool ''a'', tool ''b''] @ [tool ''a'', tool ''c'']). always_succeeds x)"
    using st2 ne f t su by (intro conjI)
  from mp [OF conjunct2 [OF w] h2] obtain evB evD states where
    r2: "run ?F [] (Some ''a'') (Some ''b'') no_kwargs =
           (SetMaxStageCount (length (Steps ?F)) #
              concat (map (\<lambda>x. [StartStage (step_name x), EndStage True])
                ([] :: string list Step list)) @ evB @
              concat (map (\<lambda>x. [StartStage (step_name x), EndStage True]) [tool ''b'']) @ evD,
            Inr (states, [tool ''a'', tool ''b''] @ [tool ''a'', tool ''c'']))"
    and c2: "map fst (calls evB) = [tool ''a'', tool ''b'']"
      "map fst (calls evD) = [tool ''a'', tool ''c'']"
      "length states = Suc (length [tool ''a'', tool ''b''] + length [tool ''a'', tool ''c''])"
    by (elim exE conjE) (rule that; assumption)
  have p2: "\<exists>evB evD states.
      run ?F [] (Some ''a'') (Some ''b'') no_kwargs =
        (SetMaxStageCount 5 # evB @ StartStage ''b'' # EndStage True # evD,
         Inr (states, [tool ''a'', tool ''b'', tool ''a'', tool ''c''])) \<and>
      map fst (calls evB) = [tool ''a'', tool ''b''] \<and>
      map fst (calls evD) = [tool ''a'', tool ''c''] \<and> length states = 5"
    apply (rule exI[of _ evB])
    apply (rule exI[of _ evD])
    apply (rule exI[of _ states])
    using r2 c2 n by simp
  have c: "map fst (calls ?ev1) = [tool ''a'', tool ''b'']" "calls ?ev2 = []" by simp_all
  have q1: "\<exists>ev1 ev2.
      run ?F [] None (Some ''b'') no_kwargs =
        (SetMaxStageCount 5 # ev1 @ StartStage ''b'' # EndStage True # ev2,
         Inr ([[], [''a''], [''a'', ''b'']], [tool ''a'', tool ''b''])) \<and>
      map fst (calls ev1) = [tool ''a'', tool ''b''] \<and> calls ev2 = []"
    apply (rule exI[of _ ?ev1])
    apply (rule exI[of _ ?ev2])
    using p1 c by simp
  from q1 p2 show ?thesis by (rule conjI)
qed

end
